theory Spec2Isabelle
  imports Complex_Main "HOL-Library.Word"
begin

unbundle bit_operations_syntax

section \<open>Bytes, samples and the end-of-recording marker\<close>

text \<open>
  The host application exists in two variants that share one worker protocol: the Web
  Serial variant (a stream of reads, scanned by \<open>findEOF\<close>) and the WebUSB variant (bulk
  transfers, tested by \<open>isEOF\<close>). A byte is an element of a \<open>Uint8Array\<close>, a sample an
  element of an \<open>Int16Array\<close>.
\<close>

type_synonym byte = "8 word"
type_synonym int16 = "16 word"

definition EOF_MARKER :: "byte list" where
  "EOF_MARKER = [0xFF, 0xFE, 0xFD, 0xFC]"

subsection \<open>\<open>findEOF\<close> (Web Serial variant)\<close>

text \<open>
  \<^verbatim>\<open>for (let i = 0; i <= bytes.length - 4; i++) { if (...) return i; } return -1;\<close>
  The bound \<open>bytes.length - 4\<close> is negative for a short array, so it is computed in
  \<open>int\<close>; the result keeps the source's \<open>-1\<close> for "not found".
\<close>

function findEOF_loop :: "byte list \<Rightarrow> nat \<Rightarrow> int" where
  "findEOF_loop bytes i =
     (if int i \<le> int (length bytes) - 4 then
        (if bytes ! i = 0xFF \<and> bytes ! (i + 1) = 0xFE \<and>
            bytes ! (i + 2) = 0xFD \<and> bytes ! (i + 3) = 0xFC then int i
         else findEOF_loop bytes (i + 1))
      else - 1)"
  by pat_completeness auto
termination
  by (relation "measure (\<lambda>(bytes, i). length bytes - i)") auto

declare findEOF_loop.simps [simp del]

definition findEOF :: "byte list \<Rightarrow> int" where
  "findEOF bytes = findEOF_loop bytes 0"

text \<open>A complete four-byte match of the marker starting at index \<open>i\<close>.\<close>

definition sentinelAt :: "byte list \<Rightarrow> nat \<Rightarrow> bool" where
  "sentinelAt bytes i \<longleftrightarrow> i + 4 \<le> length bytes \<and> take 4 (drop i bytes) = EOF_MARKER"

subsection \<open>\<open>isEOF\<close> (WebUSB variant)\<close>

text \<open>
  The argument is the \<open>DataView\<close> of one bulk transfer; only its first four bytes are read.
\<close>

definition isEOF :: "byte list \<Rightarrow> bool" where
  "isEOF dataView =
     (if length dataView < 4 then False
      else dataView ! 0 = 0xFF \<and> dataView ! 1 = 0xFE \<and>
           dataView ! 2 = 0xFD \<and> dataView ! 3 = 0xFC)"

subsection \<open>Bytes to samples\<close>

text \<open>
  Web Serial variant: \<^verbatim>\<open>combined[i] = (audioBytes[i * 2]) | (audioBytes[i * 2 + 1] << 8)\<close>
  for \<open>i < Math.floor(audioBytes.length / 2)\<close>. The right-hand side lies in \<open>0..65535\<close>
  and the store into the \<open>Int16Array\<close> keeps its low 16 bits, read as two's complement
  (\<open>sint\<close>).
\<close>

definition toInt16Array :: "byte list \<Rightarrow> int16 list" where
  "toInt16Array audioBytes =
     (let samples = length audioBytes div 2
      in map (\<lambda>i. ucast (audioBytes ! (i * 2)) OR push_bit 8 (ucast (audioBytes ! (i * 2 + 1))))
           [0..<samples])"

text \<open>
  WebUSB variant: \<^verbatim>\<open>new Int16Array(buffer.slice(byteOffset, byteOffset + byteLength))\<close>.
  The constructor throws a \<open>RangeError\<close> (\<open>None\<close>) when the byte length is odd; the view
  reads the bytes in the platform's byte order, little-endian on every platform the
  browsers run on.
\<close>

definition Int16Array_view :: "byte list \<Rightarrow> int16 list option" where
  "Int16Array_view bytes =
     (if odd (length bytes) then None else Some (toInt16Array bytes))"

subsection \<open>Strings of the host language\<close>

text \<open>
  A JavaScript string is a sequence of UTF-16 code units. \<open>trim\<close> removes the white
  space and line terminators of ECMAScript from both ends; \<open>TextEncoder_encode\<close> is
  the UTF-8 encoder of the Encoding Standard (a surrogate pair becomes one four-byte
  sequence, an unpaired surrogate becomes U+FFFD).
\<close>

type_synonym jsstring = "16 word list"

definition isWhiteSpace :: "16 word \<Rightarrow> bool" where
  "isWhiteSpace c \<longleftrightarrow>
     c \<in> {0x09, 0x0A, 0x0B, 0x0C, 0x0D, 0x20, 0xA0, 0x1680, 0x2028, 0x2029, 0x202F,
          0x205F, 0x3000, 0xFEFF} \<or> (0x2000 \<le> c \<and> c \<le> 0x200A)"

definition trim :: "jsstring \<Rightarrow> jsstring" where
  "trim s = rev (dropWhile isWhiteSpace (rev (dropWhile isWhiteSpace s)))"

definition isHighSurrogate :: "16 word \<Rightarrow> bool" where
  "isHighSurrogate c \<longleftrightarrow> 0xD800 \<le> c \<and> c \<le> 0xDBFF"

definition isLowSurrogate :: "16 word \<Rightarrow> bool" where
  "isLowSurrogate c \<longleftrightarrow> 0xDC00 \<le> c \<and> c \<le> 0xDFFF"

definition utf8_of_codepoint :: "32 word \<Rightarrow> byte list" where
  "utf8_of_codepoint cp =
     (if cp < 0x80 then [ucast cp]
      else if cp < 0x800 then
        [0xC0 OR ucast (drop_bit 6 cp), 0x80 OR ucast (cp AND 0x3F)]
      else if cp < 0x10000 then
        [0xE0 OR ucast (drop_bit 12 cp), 0x80 OR ucast (drop_bit 6 cp AND 0x3F),
         0x80 OR ucast (cp AND 0x3F)]
      else
        [0xF0 OR ucast (drop_bit 18 cp), 0x80 OR ucast (drop_bit 12 cp AND 0x3F),
         0x80 OR ucast (drop_bit 6 cp AND 0x3F), 0x80 OR ucast (cp AND 0x3F)])"

fun TextEncoder_encode :: "jsstring \<Rightarrow> byte list" where
  "TextEncoder_encode [] = []"
| "TextEncoder_encode [c] =
     (if isHighSurrogate c \<or> isLowSurrogate c then utf8_of_codepoint 0xFFFD
      else utf8_of_codepoint (ucast c))"
| "TextEncoder_encode (c # d # cs) =
     (if isHighSurrogate c \<and> isLowSurrogate d then
        utf8_of_codepoint (0x10000 + push_bit 10 (ucast c - 0xD800) + (ucast d - 0xDC00))
          @ TextEncoder_encode cs
      else if isHighSurrogate c \<or> isLowSurrogate c then
        utf8_of_codepoint 0xFFFD @ TextEncoder_encode (d # cs)
      else utf8_of_codepoint (ucast c) @ TextEncoder_encode (d # cs))"

section \<open>The host: state shared by both variants\<close>

text \<open>
  \<open>status\<close> is the text of the status badge. \<open>posted\<close> lists the sample arrays of the
  \<open>transcribe\<close> messages given to \<open>worker.postMessage\<close>, \<open>written\<close> the byte arrays given
  to the transport's write call (\<open>writer.write\<close>, \<open>device.transferOut\<close>), oldest first.
  \<open>running\<close> says that \<open>receiveLoop\<close> has been started and has not left its outer loop:
  it is then waiting for a read. \<open>worker.onmessage\<close> is an async function that waits
  for the write of \<open>sendText\<close>: \<open>onmessage_serial\<close> and \<open>onmessage_usb\<close> give its whole
  effect, as when the write settles before anything else happens; the section on the
  host with its worker splits it at the wait.
\<close>

datatype status =
  Disconnected | LoadingModel | ConnectedLoading | ConnectedReady | RecordingNow |
  Transcribing | ModelNotReady | WorkerErrorStatus

record host =
  modelReady :: bool
  running :: bool
  status :: status
  posted :: "int16 list list"
  written :: "byte list list"

text \<open>The messages of the worker, as the \<open>switch (data.type)\<close> of \<open>worker.onmessage\<close> reads them.\<close>

datatype worker_msg = Ready | Progress | Transcript jsstring | ErrorMsg

section \<open>Web Serial variant\<close>

record serial_port =
  readable :: bool
  writable :: bool

text \<open>
  \<open>port = None\<close> is \<open>port === null\<close>. \<open>audioBytes\<close> and \<open>recordingStarted\<close> are the
  locals of one iteration of \<open>receiveLoop\<close>; at the head of the loop they are \<open>[]\<close> and
  \<open>False\<close>.
\<close>

record serial_state = host +
  port :: "serial_port option"
  audioBytes :: "byte list"
  recordingStarted :: bool

text \<open>
  \<open>sendText\<close>: one \<open>writer.write\<close> of \<open>encode(text + '\0')\<close>, or nothing when there is
  no writable port. A failing write is caught and logged, the call has been made.
\<close>

definition sendText_serial :: "jsstring \<Rightarrow> serial_state \<Rightarrow> serial_state" where
  "sendText_serial text st =
     (case port st of
        None \<Rightarrow> st
      | Some p \<Rightarrow>
          if \<not> writable p then st
          else st\<lparr>written := written st @ [TextEncoder_encode (text @ [0])]\<rparr>)"

text \<open>
  \<open>worker.onmessage\<close>. \<open>appendTranscript\<close> and the progress bar only touch the page.
  A string is truthy when it is not empty.
\<close>

definition onmessage_serial :: "serial_state \<Rightarrow> worker_msg \<Rightarrow> serial_state" where
  "onmessage_serial st data =
     (case data of
        Ready \<Rightarrow>
          (let st1 = st\<lparr>modelReady := True\<rparr>
           in if port st1 \<noteq> None then st1\<lparr>status := ConnectedReady\<rparr> else st1)
      | Progress \<Rightarrow> st
      | Transcript text \<Rightarrow>
          (let st1 = (if text \<noteq> [] \<and> trim text \<noteq> []
                      then sendText_serial (trim text @ [0x20]) st
                      else sendText_serial [] st)
           in if port st1 \<noteq> None then st1\<lparr>status := ConnectedReady\<rparr> else st1)
      | ErrorMsg \<Rightarrow> st\<lparr>status := WorkerErrorStatus\<rparr>)"

definition portReadable :: "serial_state \<Rightarrow> bool" where
  "portReadable st = (case port st of None \<Rightarrow> False | Some p \<Rightarrow> readable p)"

text \<open>
  The head of the outer loop: \<^verbatim>\<open>while (port && port.readable)\<close>, then the fresh locals
  \<^verbatim>\<open>let audioBytes = []; let recordingStarted = false;\<close> and the first read.
\<close>

definition loopHead_serial :: "serial_state \<Rightarrow> serial_state" where
  "loopHead_serial st =
     st\<lparr>audioBytes := [], recordingStarted := False, running := portReadable st\<rparr>"

text \<open>
  The rest of one iteration of \<open>receiveLoop\<close> after its inner loop has ended (the checks
  on the length and on \<open>modelReady\<close>, the conversion, \<open>postMessage\<close>), up to the head of
  the next iteration. The loop does not wait for the worker.
\<close>

definition finishRecording_serial :: "serial_state \<Rightarrow> serial_state" where
  "finishRecording_serial st =
     (let bytes = audioBytes st
      in if length bytes < 512 then loopHead_serial st
         else if \<not> modelReady st then loopHead_serial (st\<lparr>status := ModelNotReady\<rparr>)
         else loopHead_serial
                (st\<lparr>status := Transcribing, posted := posted st @ [toInt16Array bytes]\<rparr>))"

text \<open>The outcomes of \<open>await reader.read()\<close>: a chunk, \<open>done\<close>, or a rejection.\<close>

datatype read_result = Chunk "byte list" | Done | ReadError

text \<open>
  One read of the inner loop of \<open>receiveLoop\<close>; the inner loop does not look at \<open>port\<close>.
  An empty chunk is skipped. A read error leaves the outer loop when the port is gone
  (\<open>if (!port) break\<close>); with the port still there it is logged, and the bytes read so far
  are handled like a finished recording.
\<close>

definition receive_serial :: "serial_state \<Rightarrow> read_result \<Rightarrow> serial_state" where
  "receive_serial st r =
     (if \<not> running st then st
      else case r of
        Done \<Rightarrow> finishRecording_serial st
      | ReadError \<Rightarrow>
          if port st = None then st\<lparr>running := False\<rparr> else finishRecording_serial st
      | Chunk v \<Rightarrow>
          if length v = 0 then st
          else
            let bytes = audioBytes st @ v;
                st1 = st\<lparr>audioBytes := bytes\<rparr>;
                st2 = (if \<not> recordingStarted st1 \<and> length bytes > 0
                       then st1\<lparr>recordingStarted := True, status := RecordingNow\<rparr>
                       else st1);
                eofIdx = findEOF bytes
            in if eofIdx \<noteq> - 1
               then finishRecording_serial (st2\<lparr>audioBytes := take (nat eofIdx) bytes\<rparr>)
               else st2)"

text \<open>\<open>handleDisconnect\<close>.\<close>

definition handleDisconnect_serial :: "serial_state \<Rightarrow> serial_state" where
  "handleDisconnect_serial st = st\<lparr>port := None, status := Disconnected\<rparr>"

text \<open>
  What happens to a connected host, in the order it happens: reads of the receive loop,
  messages of the worker, the disconnect notification.
\<close>

datatype serial_event = Read read_result | FromWorker worker_msg | Disconnect

fun serial_step :: "serial_state \<Rightarrow> serial_event \<Rightarrow> serial_state" where
  "serial_step st (Read r) = receive_serial st r"
| "serial_step st (FromWorker m) = onmessage_serial st m"
| "serial_step st Disconnect = handleDisconnect_serial st"

definition serial_run :: "serial_state \<Rightarrow> serial_event list \<Rightarrow> serial_state" where
  "serial_run st evs = foldl serial_step st evs"

text \<open>
  The inner loop alone, on the chunks of successive reads: the index at which the marker
  is first seen in the growing buffer, \<open>-1\<close> while no read has shown it yet.
\<close>

fun scanChunks :: "byte list \<Rightarrow> byte list list \<Rightarrow> int" where
  "scanChunks buf [] = - 1"
| "scanChunks buf (v # rest) =
     (if length v = 0 then scanChunks buf rest
      else let bytes = buf @ v; eofIdx = findEOF bytes
           in if eofIdx \<noteq> - 1 then eofIdx else scanChunks bytes rest)"

section \<open>WebUSB variant\<close>

text \<open>
  \<open>device = False\<close> is \<open>device === null\<close>. \<open>audioChunks\<close> is the local of one iteration
  of \<open>receiveLoop\<close>, \<open>recording\<close> the global flag. \<open>draining\<close> tells which of the two
  \<open>transferIn\<close> calls the loop is waiting in: the one for the first chunk (\<open>False\<close>) or
  the one of the drain loop (\<open>True\<close>).
\<close>

record usb_state = host +
  device :: bool
  epOut :: "nat option"
  recording :: bool
  audioChunks :: "int16 list list"
  draining :: bool

definition sendText_usb :: "jsstring \<Rightarrow> usb_state \<Rightarrow> usb_state" where
  "sendText_usb text st =
     (if \<not> device st \<or> epOut st = None then st
      else st\<lparr>written := written st @ [TextEncoder_encode (text @ [0])]\<rparr>)"

definition onmessage_usb :: "usb_state \<Rightarrow> worker_msg \<Rightarrow> usb_state" where
  "onmessage_usb st data =
     (case data of
        Ready \<Rightarrow> st\<lparr>modelReady := True, status := ConnectedReady\<rparr>
      | Progress \<Rightarrow> st
      | Transcript text \<Rightarrow>
          (let st1 = (if text \<noteq> [] then sendText_usb (text @ [0x20]) st else st)
           in st1\<lparr>status := ConnectedReady\<rparr>)
      | ErrorMsg \<Rightarrow> st\<lparr>status := WorkerErrorStatus\<rparr>)"

text \<open>
  The head of the outer loop: \<^verbatim>\<open>while (device)\<close>, then
  \<^verbatim>\<open>let audioChunks = []; recording = false;\<close> and the wait for the first chunk.
\<close>

definition loopHead_usb :: "usb_state \<Rightarrow> usb_state" where
  "loopHead_usb st =
     (if device st then st\<lparr>recording := False, audioChunks := [], draining := False\<rparr>
      else st\<lparr>running := False, draining := False\<rparr>)"

text \<open>
  After the drain loop: \<open>recording = false\<close>, the check for no chunks, the concatenation
  of the chunks, the check on \<open>modelReady\<close>, \<open>postMessage\<close>; then the head of the loop.
  There is no check on the length of the recording.
\<close>

definition finishRecording_usb :: "usb_state \<Rightarrow> usb_state" where
  "finishRecording_usb st =
     (let st1 = st\<lparr>recording := False\<rparr>;
          chunks = audioChunks st1
      in if length chunks = 0 then loopHead_usb st1
         else
           let combined = concat chunks
           in if \<not> modelReady st1 then loopHead_usb (st1\<lparr>status := ModelNotReady\<rparr>)
              else loopHead_usb
                     (st1\<lparr>status := Transcribing, posted := posted st1 @ [combined]\<rparr>))"

text \<open>
  The outcomes of \<open>await device.transferIn(epIn, CHUNK_SIZE)\<close>: a result with data,
  a result without, or a rejection.
\<close>

datatype transfer = Data "byte list" | NoData | TransferError

text \<open>
  What the \<open>catch\<close> blocks do with a rejected transfer or a \<open>RangeError\<close> of the
  \<open>Int16Array\<close> constructor: \<open>if (!device) break\<close> leaves the outer loop; otherwise the
  first one goes back to the head of the loop, the one of the drain loop goes on after it.
\<close>

definition catchWaiting_usb :: "usb_state \<Rightarrow> usb_state" where
  "catchWaiting_usb st = (if \<not> device st then st\<lparr>running := False\<rparr> else loopHead_usb st)"

definition catchDraining_usb :: "usb_state \<Rightarrow> usb_state" where
  "catchDraining_usb st =
     (if \<not> device st then st\<lparr>running := False\<rparr> else finishRecording_usb st)"

text \<open>
  One transfer of \<open>receiveLoop\<close>: the first of an iteration (\<open>draining\<close> is false) or one
  of the drain loop, whose condition \<open>while (device)\<close> is looked at before each transfer.
\<close>

definition receive_usb :: "usb_state \<Rightarrow> transfer \<Rightarrow> usb_state" where
  "receive_usb st t =
     (if \<not> running st then st
      else if \<not> draining st then
        (case t of
           NoData \<Rightarrow> loopHead_usb st
         | TransferError \<Rightarrow> catchWaiting_usb st
         | Data d \<Rightarrow>
             if isEOF d then loopHead_usb st
             else
               let st1 = st\<lparr>recording := True, status := RecordingNow\<rparr>
               in (case Int16Array_view d of
                     None \<Rightarrow> catchWaiting_usb st1
                   | Some c \<Rightarrow>
                       let st2 = st1\<lparr>audioChunks := audioChunks st1 @ [c]\<rparr>
                       in if device st2 then st2\<lparr>draining := True\<rparr>
                          else finishRecording_usb st2))
      else
        (case t of
           NoData \<Rightarrow> finishRecording_usb st
         | TransferError \<Rightarrow> catchDraining_usb st
         | Data d \<Rightarrow>
             if isEOF d then finishRecording_usb st
             else (case Int16Array_view d of
                     None \<Rightarrow> catchDraining_usb st
                   | Some c \<Rightarrow>
                       let st1 = st\<lparr>audioChunks := audioChunks st @ [c]\<rparr>
                       in if device st1 then st1 else finishRecording_usb st1)))"

definition handleDisconnect_usb :: "usb_state \<Rightarrow> usb_state" where
  "handleDisconnect_usb st =
     st\<lparr>device := False, epOut := None, recording := False, status := Disconnected\<rparr>"

datatype usb_event = Transfer transfer | UsbFromWorker worker_msg | UsbDisconnect

fun usb_step :: "usb_state \<Rightarrow> usb_event \<Rightarrow> usb_state" where
  "usb_step st (Transfer t) = receive_usb st t"
| "usb_step st (UsbFromWorker m) = onmessage_usb st m"
| "usb_step st UsbDisconnect = handleDisconnect_usb st"

definition usb_run :: "usb_state \<Rightarrow> usb_event list \<Rightarrow> usb_state" where
  "usb_run st evs = foldl usb_step st evs"

section \<open>The worker\<close>

text \<open>
  Samples become numbers in \<open>[-1, 1]\<close>. The numbers of the source are IEEE doubles
  stored into a \<open>Float32Array\<close>; here they are exact reals, so rounding is left out.
  A division by zero does not throw in the source, it yields an infinity or NaN:
  \<open>js_div\<close> returns \<open>None\<close> for it.
\<close>

definition js_div :: "real \<Rightarrow> real \<Rightarrow> real option" where
  "js_div a b = (if b = 0 then None else Some (a / b))"

text \<open>
  The peak scan:
  \<^verbatim>\<open>let peak = 0; for (...) { const abs = Math.abs(audioData[i]); if (abs > peak) peak = abs; }\<close>
\<close>

fun peakScan :: "int \<Rightarrow> int16 list \<Rightarrow> int" where
  "peakScan peak [] = peak"
| "peakScan peak (x # xs) =
     (let a = \<bar>sint x\<bar> in peakScan (if a > peak then a else peak) xs)"

text \<open>\<^verbatim>\<open>const scale = peak > 50 ? 0.9 / peak : 1.0 / 32768.0;\<close>\<close>

definition selectScale :: "int \<Rightarrow> real option" where
  "selectScale peak = (if peak > 50 then js_div 0.9 (of_int peak) else js_div 1.0 32768.0)"

text \<open>The conversion of the peak-normalising worker: \<open>float32[i] = audioData[i] * scale\<close>.\<close>

definition toFloat32_peak :: "int16 list \<Rightarrow> real list option" where
  "toFloat32_peak audioData =
     (case selectScale (peakScan 0 audioData) of
        None \<Rightarrow> None
      | Some scale \<Rightarrow> Some (map (\<lambda>x. of_int (sint x) * scale) audioData))"

text \<open>The conversion of the naive worker: \<open>float32[i] = audioData[i] / 32768.0\<close>.\<close>

fun toFloat32_naive :: "int16 list \<Rightarrow> real list option" where
  "toFloat32_naive [] = Some []"
| "toFloat32_naive (x # xs) =
     (case js_div (of_int (sint x)) 32768.0 of
        None \<Rightarrow> None
      | Some y \<Rightarrow> (case toFloat32_naive xs of None \<Rightarrow> None | Some ys \<Rightarrow> Some (y # ys)))"

text \<open>
  \<open>transcribe\<close> of the worker, in its two variants. The recognition engine is outside
  the repository: the loaded pipeline is a function from the numbers to the recognised
  text, \<open>None\<close> when its promise rejects; \<open>transcriber = None\<close> is a pipeline not loaded
  yet. The result is the message posted to the host, \<open>None\<close> when no message is posted.
  Both variants end with
  \<^verbatim>\<open>const text = result.text.trim(); self.postMessage({ type: 'transcript', text });\<close>
\<close>

definition transcribe_naive ::
  "(real list \<Rightarrow> jsstring option) option \<Rightarrow> int16 list \<Rightarrow> worker_msg option" where
  "transcribe_naive transcriber audioData =
     (case transcriber of
        None \<Rightarrow> Some ErrorMsg
      | Some pipeline \<Rightarrow>
          (case toFloat32_naive audioData of
             None \<Rightarrow> None
           | Some float32 \<Rightarrow>
               (case pipeline float32 of
                  None \<Rightarrow> None
                | Some text \<Rightarrow> Some (Transcript (trim text)))))"

definition transcribe_peak ::
  "(real list \<Rightarrow> jsstring option) option \<Rightarrow> int16 list \<Rightarrow> worker_msg option" where
  "transcribe_peak transcriber audioData =
     (case transcriber of
        None \<Rightarrow> Some ErrorMsg
      | Some pipeline \<Rightarrow>
          (case toFloat32_peak audioData of
             None \<Rightarrow> None
           | Some float32 \<Rightarrow>
               (case pipeline float32 of
                  None \<Rightarrow> None
                | Some text \<Rightarrow> Some (Transcript (trim text)))))"

section \<open>Start-up and connection\<close>

text \<open>
  \<open>init\<close> leaves the page with no connection and the model loading (\<open>initWorker\<close> sets
  the status last). \<open>connect\<close>, when nothing fails, stores the opened port or device,
  sets the status according to \<open>modelReady\<close> and starts \<open>receiveLoop\<close>, which reaches the
  head of its loop.
\<close>

definition init_serial :: serial_state where
  "init_serial =
     \<lparr>modelReady = False, running = False, status = LoadingModel, posted = [],
      written = [], port = None, audioBytes = [], recordingStarted = False\<rparr>"

definition connect_serial :: "serial_state \<Rightarrow> serial_state" where
  "connect_serial st =
     loopHead_serial
       (st\<lparr>port := Some \<lparr>readable = True, writable = True\<rparr>,
           status := (if modelReady st then ConnectedReady else ConnectedLoading)\<rparr>)"

definition init_usb :: usb_state where
  "init_usb =
     \<lparr>modelReady = False, running = False, status = LoadingModel, posted = [],
      written = [], device = False, epOut = None, recording = False, audioChunks = [],
      draining = False\<rparr>"

definition connect_usb :: "nat \<Rightarrow> usb_state \<Rightarrow> usb_state" where
  "connect_usb bulkOut st =
     loopHead_usb
       (st\<lparr>device := True, epOut := Some bulkOut, running := True,
           status := (if modelReady st then ConnectedReady else ConnectedLoading)\<rparr>)"

section \<open>The Web Serial host with its worker\<close>

text \<open>
  \<open>sendText\<close> holds the writer of \<open>port.writable\<close> from \<open>getWriter()\<close> until
  \<open>await writer.write(...)\<close> has settled and \<open>finally\<close> releases it. Other handlers run
  during the wait. \<open>writerLocked\<close> says that such a write is pending. \<open>finished\<close> lists
  the requests, by their position in \<open>posted\<close>, whose \<open>transcribe\<close> call in the worker
  has ended, in the order they ended; the worker calls \<open>transcribe\<close> once for each
  request, and nothing in the worker orders the ends of the calls.
\<close>

record system =
  hostOf :: serial_state
  writerLocked :: bool
  finished :: "nat list"

definition canWrite :: "serial_state \<Rightarrow> bool" where
  "canWrite h = (case port h of None \<Rightarrow> False | Some p \<Rightarrow> writable p)"

text \<open>
  \<open>worker.onmessage\<close> up to its first long wait. For a transcript: with no writable
  port \<open>sendText\<close> returns at once and the handler runs to its end; with the writer
  held by a pending write \<open>getWriter()\<close> throws, the \<open>catch\<close> logs it, nothing is
  written and the handler goes on to \<open>setStatus\<close>; otherwise the write is made and the
  handler waits for it. The other messages do not wait.
\<close>

definition deliver :: "system \<Rightarrow> worker_msg \<Rightarrow> system" where
  "deliver s data =
     (case data of
        Transcript t \<Rightarrow>
          (let h = hostOf s
           in if \<not> canWrite h then s\<lparr>hostOf := onmessage_serial h data\<rparr>
              else if writerLocked s then s\<lparr>hostOf := h\<lparr>status := ConnectedReady\<rparr>\<rparr>
              else s\<lparr>hostOf := (if t \<noteq> [] \<and> trim t \<noteq> []
                                 then sendText_serial (trim t @ [0x20]) h
                                 else sendText_serial [] h),
                      writerLocked := True\<rparr>)
      | _ \<Rightarrow> s\<lparr>hostOf := onmessage_serial (hostOf s) data\<rparr>)"

text \<open>
  The pending write settles (it resolves or rejects): \<open>releaseLock\<close>, then the rest of
  the handler, \<^verbatim>\<open>if (port) setStatus('Connected ...', 'connected')\<close>.
\<close>

definition writeSettled :: "system \<Rightarrow> system" where
  "writeSettled s =
     (if \<not> writerLocked s then s
      else let h = hostOf s
           in s\<lparr>hostOf := (if port h \<noteq> None then h\<lparr>status := ConnectedReady\<rparr> else h),
                 writerLocked := False\<rparr>)"






section \<open>Vocabulary of the statements\<close>

text \<open>The events of reading the given chunks one after the other.\<close>

definition readChunks :: "byte list list \<Rightarrow> serial_event list" where
  "readChunks chunks = map (\<lambda>v. Read (Chunk v)) chunks"

text \<open>
  The reply to a transcript as the wire format describes it: the UTF-8 bytes of the
  trimmed text and one space, or of nothing when the text is empty or white space only,
  then the byte \<open>0x00\<close>.
\<close>

definition replyBytes :: "jsstring \<Rightarrow> byte list" where
  "replyBytes text =
     (if trim text = [] then [0x00] else TextEncoder_encode (trim text @ [0x20]) @ [0x00])"


text \<open>The text \<^verbatim>\<open>"hello"\<close> and a recording of 512 zero bytes followed by the marker.\<close>

definition hello :: jsstring where
  "hello = [0x68, 0x65, 0x6C, 0x6C, 0x6F]"


section \<open>Properties of the scan\<close>

lemma take4_drop:
  "i + 4 \<le> length bs \<Longrightarrow>
     take 4 (drop i bs) = [bs ! i, bs ! (i + 1), bs ! (i + 2), bs ! (i + 3)]"
  by (auto simp: list_eq_iff_nth_eq numeral_eq_Suc less_Suc_eq)

lemma sentinelAt_nth:
  "sentinelAt bytes i \<longleftrightarrow>
     int i \<le> int (length bytes) - 4 \<and> bytes ! i = 0xFF \<and> bytes ! (i + 1) = 0xFE \<and>
     bytes ! (i + 2) = 0xFD \<and> bytes ! (i + 3) = 0xFC"
proof (cases "i + 4 \<le> length bytes")
  case False
  then show ?thesis by (auto simp: sentinelAt_def)
next
  case True
  then show ?thesis by (auto simp: sentinelAt_def take4_drop EOF_MARKER_def)
qed

lemma findEOF_loop_found:
  "findEOF_loop bytes i \<noteq> - 1 \<Longrightarrow>
     \<exists>k. findEOF_loop bytes i = int k \<and> i \<le> k \<and> sentinelAt bytes k \<and>
         (\<forall>j. i \<le> j \<and> j < k \<longrightarrow> \<not> sentinelAt bytes j)"
proof (induction bytes i rule: findEOF_loop.induct)
  case (1 bytes i)
  show ?case
  proof (cases "int i \<le> int (length bytes) - 4")
    case False
    with "1.prems" show ?thesis by (simp add: findEOF_loop.simps [of bytes i])
  next
    case inb: True
    show ?thesis
    proof (cases "sentinelAt bytes i")
      case True
      then have "findEOF_loop bytes i = int i"
        using inb by (simp add: findEOF_loop.simps [of bytes i] sentinelAt_nth)
      with True show ?thesis by auto
    next
      case False
      then have step: "findEOF_loop bytes i = findEOF_loop bytes (i + 1)"
        using inb by (subst findEOF_loop.simps) (auto simp: sentinelAt_nth)
      with "1.prems" have "findEOF_loop bytes (i + 1) \<noteq> - 1" by simp
      moreover have "\<not> (bytes ! i = 0xFF \<and> bytes ! (i + 1) = 0xFE \<and>
            bytes ! (i + 2) = 0xFD \<and> bytes ! (i + 3) = 0xFC)"
        using False inb by (simp add: sentinelAt_nth)
      ultimately obtain k where k: "findEOF_loop bytes (i + 1) = int k" "i + 1 \<le> k"
        "sentinelAt bytes k" "\<forall>j. i + 1 \<le> j \<and> j < k \<longrightarrow> \<not> sentinelAt bytes j"
        using "1.IH" [OF inb] by blast
      have "\<forall>j. i \<le> j \<and> j < k \<longrightarrow> \<not> sentinelAt bytes j"
      proof (intro allI impI)
        fix j assume "i \<le> j \<and> j < k"
        then consider "j = i" | "i + 1 \<le> j \<and> j < k" by linarith
        then show "\<not> sentinelAt bytes j" using False k(4) by cases auto
      qed
      with k step show ?thesis by (intro exI [of _ k]) auto
    qed
  qed
qed

lemma findEOF_loop_none:
  "findEOF_loop bytes i = - 1 \<Longrightarrow> i \<le> j \<Longrightarrow> \<not> sentinelAt bytes j"
proof (induction bytes i rule: findEOF_loop.induct)
  case (1 bytes i)
  show ?case
  proof (cases "int i \<le> int (length bytes) - 4")
    case False
    with "1.prems"(2) show ?thesis by (auto simp: sentinelAt_def)
  next
    case inb: True
    have nomatch: "\<not> (bytes ! i = 0xFF \<and> bytes ! (i + 1) = 0xFE \<and>
            bytes ! (i + 2) = 0xFD \<and> bytes ! (i + 3) = 0xFC)"
      using "1.prems"(1) inb by (subst (asm) findEOF_loop.simps) (auto split: if_splits)
    then have step: "findEOF_loop bytes (i + 1) = - 1"
      using "1.prems"(1) inb by (subst (asm) findEOF_loop.simps) (auto split: if_splits)
    show ?thesis
    proof (cases "j = i")
      case True
      with nomatch show ?thesis by (simp add: sentinelAt_nth)
    next
      case False
      with "1.prems"(2) have "i + 1 \<le> j" by simp
      with "1.IH" [OF inb nomatch step] show ?thesis .
    qed
  qed
qed

lemma findEOF_found:
  "findEOF bytes \<noteq> - 1 \<Longrightarrow>
     \<exists>k. findEOF bytes = int k \<and> sentinelAt bytes k \<and> (\<forall>j<k. \<not> sentinelAt bytes j)"
  using findEOF_loop_found [of bytes 0] by (auto simp: findEOF_def)

lemma findEOF_none: "findEOF bytes = - 1 \<Longrightarrow> \<not> sentinelAt bytes j"
  using findEOF_loop_none [of bytes 0 j] by (simp add: findEOF_def)

lemma findEOF_eqI:
  assumes "sentinelAt bytes k" "\<forall>j<k. \<not> sentinelAt bytes j"
  shows "findEOF bytes = int k"
proof -
  have "findEOF bytes \<noteq> - 1" using assms(1) findEOF_none by blast
  then obtain k' where k': "findEOF bytes = int k'" "sentinelAt bytes k'"
    "\<forall>j<k'. \<not> sentinelAt bytes j" using findEOF_found by blast
  have "k' = k" using assms k'(2,3) by (meson linorder_neqE_nat)
  with k'(1) show ?thesis by simp
qed

lemma sentinelAt_append:
  "sentinelAt xs i \<Longrightarrow> sentinelAt (xs @ ys) i"
  by (auto simp: sentinelAt_def)

lemma sentinelAt_append_iff:
  "i + 4 \<le> length xs \<Longrightarrow> sentinelAt (xs @ ys) i \<longleftrightarrow> sentinelAt xs i"
  by (auto simp: sentinelAt_def)

lemma findEOF_append:
  assumes "findEOF xs \<noteq> - 1"
  shows "findEOF (xs @ ys) = findEOF xs"
proof -
  obtain k where k: "findEOF xs = int k" "sentinelAt xs k" "\<forall>j<k. \<not> sentinelAt xs j"
    using findEOF_found [OF assms] by blast
  have "sentinelAt (xs @ ys) k" using k(2) by (rule sentinelAt_append)
  moreover have "\<forall>j<k. \<not> sentinelAt (xs @ ys) j"
  proof (intro allI impI)
    fix j assume "j < k"
    moreover have "k + 4 \<le> length xs" using k(2) by (simp add: sentinelAt_def)
    ultimately have "j + 4 \<le> length xs" by simp
    then show "\<not> sentinelAt (xs @ ys) j"
      using k(3) \<open>j < k\<close> by (simp add: sentinelAt_append_iff)
  qed
  ultimately have "findEOF (xs @ ys) = int k" by (rule findEOF_eqI)
  with k(1) show ?thesis by simp
qed

lemma scanChunks_append:
  "findEOF buf = - 1 \<Longrightarrow> scanChunks buf chunks = findEOF (buf @ concat chunks)"
proof (induction chunks arbitrary: buf)
  case Nil
  then show ?case by simp
next
  case (Cons v rest)
  show ?case
  proof (cases "findEOF (buf @ v) = - 1")
    case True
    then show ?thesis using Cons.IH [of "buf @ v"] Cons.IH [of buf] Cons.prems
      by (cases "v = []") (simp_all add: Let_def)
  next
    case False
    then have "v \<noteq> []" using Cons.prems by auto
    moreover have "findEOF ((buf @ v) @ concat rest) = findEOF (buf @ v)"
      using False by (rule findEOF_append)
    ultimately show ?thesis using False by (simp add: Let_def)
  qed
qed

lemma findEOF_Nil: "findEOF [] = - 1"
  by (simp add: findEOF_def findEOF_loop.simps)

lemma isEOF_iff: "isEOF d \<longleftrightarrow> sentinelAt d 0"
  by (auto simp: isEOF_def sentinelAt_nth eval_nat_numeral)


section \<open>The reply framer and the event traces\<close>

lemma utf8_nul: "utf8_of_codepoint 0 = [0]"
  by (simp add: utf8_of_codepoint_def)

lemma not_surrogate_0: "\<not> isHighSurrogate 0" "\<not> isLowSurrogate 0"
  by (simp_all add: isHighSurrogate_def isLowSurrogate_def)

lemma TextEncoder_encode_nul:
  "TextEncoder_encode (s @ [0]) = TextEncoder_encode s @ [0]"
  by (induction s rule: TextEncoder_encode.induct)
     (simp_all add: utf8_nul not_surrogate_0)

lemma trim_Nil: "trim [] = []"
  by (simp add: trim_def)

lemma written_sendText_serial:
  "port st = Some p \<Longrightarrow> writable p \<Longrightarrow>
   written (sendText_serial text st) = written st @ [TextEncoder_encode text @ [0]]"
  by (simp add: sendText_serial_def TextEncoder_encode_nul)

lemma sendText_serial_other:
  "port (sendText_serial text st) = port st"
  "posted (sendText_serial text st) = posted st"
  "modelReady (sendText_serial text st) = modelReady st"
  "audioBytes (sendText_serial text st) = audioBytes st"
  "recordingStarted (sendText_serial text st) = recordingStarted st"
  by (simp_all add: sendText_serial_def split: option.splits)

lemma written_onmessage_serial:
  assumes "port st = Some p" "writable p"
  shows "written (onmessage_serial st m) =
         written st @ (case m of Transcript text \<Rightarrow> [replyBytes text] | _ \<Rightarrow> [])"
  using assms
  by (cases m)
     (auto simp: onmessage_serial_def Let_def written_sendText_serial sendText_serial_other
        replyBytes_def trim_Nil TextEncoder_encode_nul)

lemma onmessage_serial_other:
  "port (onmessage_serial st m) = port st"
  "posted (onmessage_serial st m) = posted st"
  "audioBytes (onmessage_serial st m) = audioBytes st"
  by (cases m; simp add: onmessage_serial_def Let_def sendText_serial_other)+



lemma posted_finishRecording_serial:
  "posted (finishRecording_serial st) =
     posted st @ (if 512 \<le> length (audioBytes st) \<and> modelReady st
                  then [toInt16Array (audioBytes st)] else [])"
  by (simp add: finishRecording_serial_def loopHead_serial_def Let_def)

lemma serial_run_Cons: "serial_run st (ev # evs) = serial_run (serial_step st ev) evs"
  by (simp add: serial_run_def)

section \<open>Recordings and normalisation\<close>


lemma portReadable_update [simp]:
  "portReadable (st\<lparr>audioBytes := a\<rparr>) = portReadable st"
  "portReadable (st\<lparr>recordingStarted := b\<rparr>) = portReadable st"
  "portReadable (st\<lparr>status := c\<rparr>) = portReadable st"
  "portReadable (st\<lparr>posted := d\<rparr>) = portReadable st"
  "portReadable (st\<lparr>running := e\<rparr>) = portReadable st"
  by (simp_all add: portReadable_def)

lemma finishRecording_serial_idle:
  "audioBytes (finishRecording_serial st) = []"
  "recordingStarted (finishRecording_serial st) = False"
  "modelReady (finishRecording_serial st) = modelReady st"
  "port (finishRecording_serial st) = port st"
  "written (finishRecording_serial st) = written st"
  "running (finishRecording_serial st) = portReadable st"
  by (simp_all add: finishRecording_serial_def loopHead_serial_def Let_def)

lemma receive_serial_eof:
  assumes "running st" "v \<noteq> []" "findEOF (audioBytes st @ v) = int k"
  shows "posted (receive_serial st (Chunk v)) =
           posted st @ (if 512 \<le> k \<and> modelReady st
                        then [toInt16Array (take k (audioBytes st @ v))] else [])"
    and "audioBytes (receive_serial st (Chunk v)) = []"
    and "recordingStarted (receive_serial st (Chunk v)) = False"
    and "modelReady (receive_serial st (Chunk v)) = modelReady st"
    and "written (receive_serial st (Chunk v)) = written st"
    and "port (receive_serial st (Chunk v)) = port st"
    and "running (receive_serial st (Chunk v)) = portReadable st"
proof -
  have k: "k \<le> length (audioBytes st @ v)"
    using findEOF_found [of "audioBytes st @ v"] assms(3) by (auto simp: sentinelAt_def)
  show "posted (receive_serial st (Chunk v)) =
           posted st @ (if 512 \<le> k \<and> modelReady st
                        then [toInt16Array (take k (audioBytes st @ v))] else [])"
    using assms k
    by (auto simp: receive_serial_def Let_def posted_finishRecording_serial min_def)
  show "audioBytes (receive_serial st (Chunk v)) = []"
    "recordingStarted (receive_serial st (Chunk v)) = False"
    "modelReady (receive_serial st (Chunk v)) = modelReady st"
    "written (receive_serial st (Chunk v)) = written st"
    "port (receive_serial st (Chunk v)) = port st"
    "running (receive_serial st (Chunk v)) = portReadable st"
    using assms by (auto simp: receive_serial_def Let_def finishRecording_serial_idle)
qed

lemma findEOF_prefix_none:
  assumes "findEOF (xs @ ys) = - 1"
  shows "findEOF xs = - 1"
proof (rule ccontr)
  assume "findEOF xs \<noteq> - 1"
  then have "findEOF (xs @ ys) = findEOF xs" by (rule findEOF_append)
  with assms \<open>findEOF xs \<noteq> - 1\<close> show False by simp
qed

lemma receive_serial_no_eof:
  assumes "running st" "findEOF (audioBytes st @ v) = - 1"
  shows "audioBytes (receive_serial st (Chunk v)) = audioBytes st @ v"
    and "posted (receive_serial st (Chunk v)) = posted st"
    and "modelReady (receive_serial st (Chunk v)) = modelReady st"
    and "running (receive_serial st (Chunk v))"
  using assms by (auto simp: receive_serial_def Let_def)

lemma serial_accumulate:
  assumes "running st" "findEOF (audioBytes st @ concat chunks) = - 1"
  shows "audioBytes (serial_run st (readChunks chunks)) = audioBytes st @ concat chunks \<and>
         posted (serial_run st (readChunks chunks)) = posted st \<and>
         modelReady (serial_run st (readChunks chunks)) = modelReady st \<and>
         running (serial_run st (readChunks chunks))"
  using assms
proof (induction chunks arbitrary: st)
  case Nil
  then show ?case by (simp add: serial_run_def readChunks_def)
next
  case (Cons v rest)
  have "findEOF ((audioBytes st @ v) @ concat rest) = - 1" using Cons.prems(2) by simp
  then have none: "findEOF (audioBytes st @ v) = - 1" by (rule findEOF_prefix_none)
  note step = receive_serial_no_eof [OF Cons.prems(1) none]
  have "findEOF (audioBytes (receive_serial st (Chunk v)) @ concat rest) = - 1"
    using Cons.prems(2) step(1) by simp
  from Cons.IH [OF step(4) this] step show ?case
    by (simp add: readChunks_def serial_run_Cons)
qed

lemma serial_run_append:
  "serial_run st (evs @ evs') = serial_run (serial_run st evs) evs'"
  by (simp add: serial_run_def)

lemma ready_connected:
  "running (connect_serial (onmessage_serial init_serial Ready))"
  "modelReady (connect_serial (onmessage_serial init_serial Ready))"
  "audioBytes (connect_serial (onmessage_serial init_serial Ready)) = []"
  "posted (connect_serial (onmessage_serial init_serial Ready)) = []"
  "written (connect_serial (onmessage_serial init_serial Ready)) = []"
  "portReadable (connect_serial (onmessage_serial init_serial Ready))"
  "port (connect_serial (onmessage_serial init_serial Ready))
     = Some \<lparr>readable = True, writable = True\<rparr>"
  by (simp_all add: portReadable_def connect_serial_def loopHead_serial_def
        onmessage_serial_def init_serial_def Let_def)

lemma ready_connected_usb:
  "running (connect_usb 2 (onmessage_usb init_usb Ready))"
  "device (connect_usb 2 (onmessage_usb init_usb Ready))"
  "modelReady (connect_usb 2 (onmessage_usb init_usb Ready))"
  "\<not> draining (connect_usb 2 (onmessage_usb init_usb Ready))"
  "audioChunks (connect_usb 2 (onmessage_usb init_usb Ready)) = []"
  "posted (connect_usb 2 (onmessage_usb init_usb Ready)) = []"
  "written (connect_usb 2 (onmessage_usb init_usb Ready)) = []"
  "loopHead_usb (connect_usb 2 (onmessage_usb init_usb Ready))
     = connect_usb 2 (onmessage_usb init_usb Ready)"
  by (simp_all add: connect_usb_def loopHead_usb_def onmessage_usb_def init_usb_def)

lemma peakScan_ge: "peak \<le> peakScan peak xs"
proof (induction xs arbitrary: peak)
  case Nil
  then show ?case by simp
next
  case (Cons y ys)
  have "peak \<le> (if \<bar>sint y\<bar> > peak then \<bar>sint y\<bar> else peak)" by simp
  also have "\<dots> \<le> peakScan (if \<bar>sint y\<bar> > peak then \<bar>sint y\<bar> else peak) ys"
    by (rule Cons.IH)
  finally show ?case by (simp add: Let_def)
qed

lemma peakScan_bound: "x \<in> set xs \<Longrightarrow> \<bar>sint x\<bar> \<le> peakScan peak xs"
proof (induction xs arbitrary: peak)
  case Nil
  then show ?case by simp
next
  case (Cons y ys)
  show ?case
  proof (cases "x = y")
    case True
    have "\<bar>sint y\<bar> \<le> (if \<bar>sint y\<bar> > peak then \<bar>sint y\<bar> else peak)" by simp
    also have "\<dots> \<le> peakScan (if \<bar>sint y\<bar> > peak then \<bar>sint y\<bar> else peak) ys"
      by (rule peakScan_ge)
    finally show ?thesis using True by (simp add: Let_def)
  next
    case False
    with Cons.prems have "x \<in> set ys" by simp
    from Cons.IH [OF this] show ?thesis by (simp add: Let_def)
  qed
qed

lemma peakScan_Max: "peakScan peak xs = Max (insert peak ((\<lambda>x. \<bar>sint x\<bar>) ` set xs))"
proof (induction xs arbitrary: peak)
  case Nil
  then show ?case by simp
next
  case (Cons y ys)
  have "Max (insert peak ((\<lambda>x. \<bar>sint x\<bar>) ` set (y # ys))) =
        Max (insert (max peak \<bar>sint y\<bar>) ((\<lambda>x. \<bar>sint x\<bar>) ` set ys))"
  proof (cases "set ys = {}")
    case True
    then show ?thesis by (simp add: max.commute)
  next
    case False
    then show ?thesis by (simp add: max.assoc max.left_commute max.commute)
  qed
  moreover have "(if \<bar>sint y\<bar> > peak then \<bar>sint y\<bar> else peak) = max peak \<bar>sint y\<bar>"
    by (simp add: max_def)
  ultimately show ?case using Cons.IH [of "max peak \<bar>sint y\<bar>"] by (simp add: Let_def)
qed

lemma sint16_bound: "\<bar>sint (x :: int16)\<bar> \<le> 32768"
  using sint_ge [of x] sint_lt [of x] by simp

lemma selectScale_Some:
  "selectScale peak = Some (if peak > 50 then 0.9 / real_of_int peak else 1 / 32768)"
  by (simp add: selectScale_def js_div_def)

lemma toFloat32_naive_eq:
  "toFloat32_naive xs = Some (map (\<lambda>x. real_of_int (sint x) / 32768) xs)"
  by (induction xs) (simp_all add: js_div_def)

lemma toFloat32_peak_eq:
  "toFloat32_peak xs = Some (map (\<lambda>x. real_of_int (sint x) *
      (if peakScan 0 xs > 50 then 0.9 / real_of_int (peakScan 0 xs) else 1 / 32768)) xs)"
  by (simp add: toFloat32_peak_def selectScale_Some)

lemma peak_scaled_bound:
  assumes "x \<in> set xs"
  shows "\<bar>real_of_int (sint x) *
      (if peakScan 0 xs > 50 then 0.9 / real_of_int (peakScan 0 xs) else 1 / 32768)\<bar> \<le> 1"
proof -
  define r where "r = real_of_int (sint x)"
  define p where "p = real_of_int (peakScan 0 xs)"
  have le: "\<bar>r\<bar> \<le> p"
    using peakScan_bound [OF assms, of 0] unfolding r_def p_def by linarith
  have r32: "\<bar>r\<bar> \<le> 32768"
    using sint16_bound [of x] unfolding r_def by linarith
  have "\<bar>r * (if 50 < p then 0.9 / p else 1 / 32768)\<bar> \<le> 1"
  proof (cases "50 < p")
    case True
    then have pos: "0 < p" by simp
    have "\<bar>r * (0.9 / p)\<bar> = \<bar>r\<bar> * 0.9 / p"
      using pos by (simp add: abs_mult)
    also have "\<dots> \<le> p * 0.9 / p"
      using le pos by (intro divide_right_mono mult_right_mono) simp_all
    also have "\<dots> = 0.9" using pos by simp
    finally have "\<bar>r * (0.9 / p)\<bar> \<le> 0.9" .
    then have "\<bar>r * (0.9 / p)\<bar> \<le> 1" by linarith
    then show ?thesis using True by (simp only: if_True)
  next
    case False
    have "\<bar>r * (1 / 32768)\<bar> \<le> 1" using r32 by (simp add: abs_mult)
    then show ?thesis using False by (simp only: if_False)
  qed
  moreover have "(50 < p) = (50 < peakScan 0 xs)" unfolding p_def by linarith
  ultimately show ?thesis unfolding r_def p_def by simp
qed

lemma naive_bound: "\<bar>real_of_int (sint (x::int16)) / 32768\<bar> \<le> 1"
proof -
  define r where "r = real_of_int (sint x)"
  have "\<bar>r\<bar> \<le> 32768"
    using sint16_bound [of x] unfolding r_def by linarith
  then have "\<bar>r / 32768\<bar> \<le> 1" by simp
  then show ?thesis unfolding r_def .
qed

lemma sint16_uint:
  "sint (w :: int16) = (if uint w < 32768 then uint w else uint w - 65536)"
proof -
  have lt: "uint w < 65536" using uint_lt2p [of w] by simp
  have ge: "0 \<le> uint w" by simp
  have m: "\<not> uint w < 32768 \<Longrightarrow> (uint w + 32768) mod 65536 = uint w - 32768"
    using mod_add_self2 [of "uint w - 32768" 65536] lt by (simp add: add.commute)
  show ?thesis using lt ge m
    by (auto simp: sint_uint signed_take_bit_eq_take_bit_shift take_bit_eq_mod)
qed

lemma toInt16Array_append:
  assumes "even (length xs)"
  shows "toInt16Array (xs @ ys) = toInt16Array xs @ toInt16Array ys"
proof -
  obtain a where a: "length xs = 2 * a" using assms by (elim evenE)
  have len: "(length xs + length ys) div 2 = a + length ys div 2" using a by simp
  show ?thesis
    unfolding list_eq_iff_nth_eq
  proof (intro conjI allI impI)
    show "length (toInt16Array (xs @ ys)) = length (toInt16Array xs @ toInt16Array ys)"
      using a by (simp add: toInt16Array_def)
  next
    fix i assume "i < length (toInt16Array (xs @ ys))"
    then have i: "i < a + length ys div 2" using len by (simp add: toInt16Array_def)
    show "toInt16Array (xs @ ys) ! i = (toInt16Array xs @ toInt16Array ys) ! i"
    proof (cases "i < a")
      case True
      then show ?thesis using a i len
        by (simp add: toInt16Array_def nth_append)
    next
      case False
      then obtain j where j: "i = a + j" by (metis le_add_diff_inverse not_less)
      then have "j < length ys div 2" using i by simp
      moreover have "(a + j) * 2 - 2 * a = j * 2" "Suc ((a + j) * 2) - 2 * a = Suc (j * 2)"
        by simp_all
      ultimately show ?thesis using a i len j
        by (simp add: toInt16Array_def nth_append)
    qed
  qed
qed

lemma toInt16Array_zero: "toInt16Array (replicate (2 * n) 0) = replicate n 0"
  by (auto simp: toInt16Array_def list_eq_iff_nth_eq)

lemma peakScan_zero: "0 \<le> peak \<Longrightarrow> peakScan peak (replicate n 0) = peak"
  by (induction n) (simp_all add: Let_def)

lemma peakScan_append: "peakScan peak (xs @ ys) = peakScan (peakScan peak xs) ys"
  by (induction xs arbitrary: peak) (simp_all add: Let_def)



lemma sample_uint:
  fixes lo hi :: byte
  shows "uint (ucast lo OR push_bit 8 (ucast hi) :: int16) = uint lo + 256 * uint hi"
proof -
  have "(ucast lo OR push_bit 8 (ucast hi) :: int16) = word_cat hi lo"
    by (simp add: word_cat_eq_push_bit_or or.commute)
  also have "uint (word_cat hi lo :: int16) = concat_bit 8 (uint lo) (uint hi) mod 2 ^ 16"
    by (simp add: word_cat_eq' uint_word_of_int)
  also have "concat_bit 8 (uint lo) (uint hi) = uint lo + 256 * uint hi"
    using uint_lt2p [of lo] by (simp add: concat_bit_eq take_bit_int_eq_self push_bit_eq_mult)
  also have "(uint lo + 256 * uint hi) mod 2 ^ 16 = uint lo + 256 * uint hi"
    using uint_lt2p [of lo] uint_lt2p [of hi] by simp
  finally show ?thesis .
qed

lemma length_toInt16Array: "length (toInt16Array bs) = length bs div 2"
  by (simp add: toInt16Array_def)

lemma nth_toInt16Array:
  "i < length bs div 2 \<Longrightarrow>
   toInt16Array bs ! i = ucast (bs ! (i * 2)) OR push_bit 8 (ucast (bs ! (i * 2 + 1)))"
  by (simp add: toInt16Array_def)

lemma toInt16Array_odd:
  "even (length bs) \<Longrightarrow> toInt16Array (bs @ [b]) = toInt16Array bs"
  by (auto simp: toInt16Array_def nth_append)

lemma loopHead_usb_fields:
  "posted (loopHead_usb st) = posted st" "written (loopHead_usb st) = written st"
  "status (loopHead_usb st) = status st" "modelReady (loopHead_usb st) = modelReady st"
  "device (loopHead_usb st) = device st" "epOut (loopHead_usb st) = epOut st"
  "draining (loopHead_usb st) = False"
  "device st \<Longrightarrow> recording (loopHead_usb st) = False"
  "device st \<Longrightarrow> audioChunks (loopHead_usb st) = []"
  "device st \<Longrightarrow> running (loopHead_usb st) = running st"
  by (simp_all add: loopHead_usb_def)

lemma finishRecording_serial_short:
  "length (audioBytes st) < 512 \<Longrightarrow> finishRecording_serial st = loopHead_serial st"
  by (simp add: finishRecording_serial_def)


lemma ex_recording_2000:
  "length (replicate 1998 0 @ [0x80, 0x3E :: byte]) = 2000"
  "toInt16Array (replicate 1998 0 @ [0x80, 0x3E]) = replicate 999 0 @ [16000]"
  "peakScan 0 (replicate 999 0 @ [16000]) = 16000"
proof -
  show "length (replicate 1998 0 @ [0x80, 0x3E :: byte]) = 2000" by simp
  have "toInt16Array [0x80, 0x3E] = [16000]" by code_simp
  then show "toInt16Array (replicate 1998 0 @ [0x80, 0x3E]) = replicate 999 0 @ [16000]"
    using toInt16Array_zero [of 999] toInt16Array_append [of "replicate 1998 0" "[0x80, 0x3E]"]
    by simp
  show "peakScan 0 (replicate 999 0 @ [16000]) = 16000"
    by (simp add: peakScan_append peakScan_zero Let_def)
qed


section \<open>The host with its worker: replies and requests\<close>















lemma deliver_settled_atomic:
  "\<not> writerLocked s \<Longrightarrow> hostOf (writeSettled (deliver s m)) = onmessage_serial (hostOf s) m"
  by (cases m)
     (auto simp: writeSettled_def deliver_def Let_def onmessage_serial_def sendText_serial_other
        canWrite_def sendText_serial_def split: option.splits)








section \<open>The claims about the scan\<close>

text \<open>
  Claim C9. The scan \<open>findEOF\<close> returns the index of the first complete four-byte match
  of the marker in the buffer, and \<open>-1\<close> (no offset) exactly when the buffer holds no
  complete match; no match starts at an index below the one returned.
\<close>

theorem findEOF_first_match:
  "(findEOF bytes = - 1 \<longleftrightarrow> (\<forall>i. \<not> sentinelAt bytes i)) \<and>
   (findEOF bytes \<noteq> - 1 \<longrightarrow>
      (\<exists>k. findEOF bytes = int k \<and> sentinelAt bytes k \<and> (\<forall>i<k. \<not> sentinelAt bytes i)))"
proof (intro conjI impI iffI allI)
  fix i assume "findEOF bytes = - 1"
  then show "\<not> sentinelAt bytes i" by (rule findEOF_none)
next
  assume none: "\<forall>i. \<not> sentinelAt bytes i"
  show "findEOF bytes = - 1"
  proof (rule ccontr)
    assume "findEOF bytes \<noteq> - 1"
    from findEOF_found [OF this] none show False by blast
  qed
next
  assume "findEOF bytes \<noteq> - 1"
  then show "\<exists>k. findEOF bytes = int k \<and> sentinelAt bytes k \<and> (\<forall>i<k. \<not> sentinelAt bytes i)"
    by (rule findEOF_found)
qed

theorem findEOF_first_match_witness:
  "findEOF [0x10, 0x20, 0x30, 0x40, 0xFF, 0xFE, 0xFD, 0xFC] \<noteq> - 1 \<and>
   (\<exists>k. findEOF [0x10, 0x20, 0x30, 0x40, 0xFF, 0xFE, 0xFD, 0xFC] = int k \<and>
        sentinelAt [0x10, 0x20, 0x30, 0x40, 0xFF, 0xFE, 0xFD, 0xFC] k \<and>
        (\<forall>i<k. \<not> sentinelAt [0x10, 0x20, 0x30, 0x40, 0xFF, 0xFE, 0xFD, 0xFC] i))"
proof -
  have found: "findEOF [0x10, 0x20, 0x30, 0x40, 0xFF, 0xFE, 0xFD, 0xFC] \<noteq> - 1"
    by code_simp
  with findEOF_first_match [of "[0x10, 0x20, 0x30, 0x40, 0xFF, 0xFE, 0xFD, 0xFC]"]
  show ?thesis by blast
qed

text \<open>
  Claim C1, as amended. In the Web Serial variant the detection does not depend on how
  the bytes are cut into chunks: growing the buffer chunk by chunk and scanning it after
  each chunk, as the inner loop of \<open>receiveLoop\<close> does, finds the marker at the offset
  at which one scan of all the bytes finds it, also when the marker lies across chunk
  boundaries. So the loop, started with an empty buffer, keeps all the bytes while they
  hold no marker, and at the read that completes the first marker, at offset \<open>k\<close> of all
  the bytes read, it hands on the first \<open>k\<close> bytes (when they are at least 512 and the
  model is ready). The WebUSB variant does not scan a buffer: \<open>isEOF\<close> recognises the
  marker only as the first four bytes of one transfer.
\<close>

theorem scanChunks_chunk_invariant:
  "scanChunks [] chunks = findEOF (concat chunks) \<and>
   scanChunks [] [[0x01, 0xFF], [0xFE, 0xFD], [0xFC, 0x02]] = 1 \<and>
   (running st \<and> audioBytes st = [] \<and> findEOF (concat chunks) = - 1 \<longrightarrow>
      audioBytes (serial_run st (readChunks chunks)) = concat chunks \<and>
      posted (serial_run st (readChunks chunks)) = posted st) \<and>
   (running st \<and> audioBytes st = [] \<and> findEOF (concat chunks) = - 1 \<and> v \<noteq> [] \<and>
    findEOF (concat (chunks @ [v])) = int k \<longrightarrow>
      posted (serial_run st (readChunks (chunks @ [v]))) =
        posted st @ (if 512 \<le> k \<and> modelReady st
                     then [toInt16Array (take k (concat (chunks @ [v])))] else [])) \<and>
   (isEOF d \<longleftrightarrow> sentinelAt d 0)"
proof (intro conjI impI)
  show "scanChunks [] chunks = findEOF (concat chunks)"
    using scanChunks_append [OF findEOF_Nil, of chunks] by simp
next
  show "scanChunks [] [[0x01, 0xFF], [0xFE, 0xFD], [0xFC, 0x02]] = 1"
    by code_simp
next
  assume a: "running st \<and> audioBytes st = [] \<and> findEOF (concat chunks) = - 1"
  then have "findEOF (audioBytes st @ concat chunks) = - 1" by simp
  from serial_accumulate [OF _ this] a
  show "audioBytes (serial_run st (readChunks chunks)) = concat chunks"
    and "posted (serial_run st (readChunks chunks)) = posted st" by simp_all
next
  assume a: "running st \<and> audioBytes st = [] \<and> findEOF (concat chunks) = - 1 \<and> v \<noteq> [] \<and>
    findEOF (concat (chunks @ [v])) = int k"
  let ?st' = "serial_run st (readChunks chunks)"
  from a have "findEOF (audioBytes st @ concat chunks) = - 1" by simp
  from serial_accumulate [OF _ this] a
  have acc: "audioBytes ?st' = concat chunks" "posted ?st' = posted st"
    "modelReady ?st' = modelReady st" "running ?st'" by simp_all
  have f: "findEOF (audioBytes ?st' @ v) = int k" using a acc(1) by simp
  have run: "serial_run st (readChunks (chunks @ [v])) = receive_serial ?st' (Chunk v)"
    by (simp add: readChunks_def serial_run_append) (simp add: serial_run_def)
  from a have "v \<noteq> []" by simp
  from receive_serial_eof(1) [OF acc(4) this f]
  show "posted (serial_run st (readChunks (chunks @ [v]))) =
        posted st @ (if 512 \<le> k \<and> modelReady st
                     then [toInt16Array (take k (concat (chunks @ [v])))] else [])"
    by (simp add: run acc)
next
  show "isEOF d \<longleftrightarrow> sentinelAt d 0" by (rule isEOF_iff)
qed

theorem scanChunks_chunk_invariant_witness:
  "running (connect_serial (onmessage_serial init_serial Ready)) \<and>
   findEOF (concat [[0x10, 0x20, 0xFF], [0xFE]]) = - 1 \<and>
   findEOF (concat ([[0x10, 0x20, 0xFF], [0xFE]] @ [[0xFD, 0xFC, 0x30]])) = 2 \<and>
   audioBytes (serial_run (connect_serial (onmessage_serial init_serial Ready))
      (readChunks [[0x10, 0x20, 0xFF], [0xFE]])) = [0x10, 0x20, 0xFF, 0xFE] \<and>
   posted (serial_run (connect_serial (onmessage_serial init_serial Ready))
      (readChunks ([[0x10, 0x20, 0xFF], [0xFE]] @ [[0xFD, 0xFC, 0x30]]))) = []"
proof -
  let ?st = "connect_serial (onmessage_serial init_serial Ready)"
  let ?chunks = "[[0x10, 0x20, 0xFF], [0xFE]] :: byte list list"
  let ?v = "[0xFD, 0xFC, 0x30] :: byte list"
  have f1: "findEOF (concat ?chunks) = - 1" by code_simp
  have f2: "findEOF (concat (?chunks @ [?v])) = int 2" by code_simp
  from scanChunks_chunk_invariant [of ?chunks ?st ?v 2 "[]"]
  show ?thesis using f1 f2 by (simp add: ready_connected)
qed

text \<open>
  The claim as stated fails in the WebUSB variant: the bytes of two transfers hold the
  marker at offset 2, neither transfer starts with it, and after both the loop is still
  draining, with the marker's bytes kept as audio.
\<close>

theorem usb_split_marker_missed:
  "findEOF (concat [[0x01, 0x02, 0xFF, 0xFE], [0xFD, 0xFC]]) = 2 \<and>
   \<not> isEOF [0x01, 0x02, 0xFF, 0xFE] \<and> \<not> isEOF [0xFD, 0xFC] \<and>
   draining (usb_run (connect_usb 2 (onmessage_usb init_usb Ready))
      [Transfer (Data [0x01, 0x02, 0xFF, 0xFE]), Transfer (Data [0xFD, 0xFC])]) \<and>
   audioChunks (usb_run (connect_usb 2 (onmessage_usb init_usb Ready))
      [Transfer (Data [0x01, 0x02, 0xFF, 0xFE]), Transfer (Data [0xFD, 0xFC])])
     = [[0x0201, 0xFEFF], [0xFCFD]] \<and>
   posted (usb_run (connect_usb 2 (onmessage_usb init_usb Ready))
      [Transfer (Data [0x01, 0x02, 0xFF, 0xFE]), Transfer (Data [0xFD, 0xFC])]) = []"
  by code_simp

section \<open>The claims about recordings\<close>

text \<open>
  Claim C7. The Web Serial variant turns the bytes of a recording into exactly
  \<open>floor(length / 2)\<close> signed 16-bit samples; sample \<open>i\<close> is made of the bytes \<open>2 i\<close> (low)
  and \<open>2 i + 1\<close> (high), read as two's complement; a trailing odd byte is dropped; the
  bytes \<open>10 20 30 40\<close> give the samples \<open>0x2010\<close> and \<open>0x4030\<close>.
\<close>

theorem toInt16Array_little_endian:
  "length (toInt16Array bs) = length bs div 2 \<and>
   (\<forall>i < length bs div 2.
      uint (toInt16Array bs ! i) = uint (bs ! (2 * i)) + 256 * uint (bs ! (2 * i + 1)) \<and>
      sint (toInt16Array bs ! i) =
        (if uint (bs ! (2 * i + 1)) < 128
         then uint (bs ! (2 * i)) + 256 * uint (bs ! (2 * i + 1))
         else uint (bs ! (2 * i)) + 256 * uint (bs ! (2 * i + 1)) - 65536)) \<and>
   (even (length bs) \<longrightarrow> toInt16Array (bs @ [b]) = toInt16Array bs) \<and>
   toInt16Array [0x10, 0x20, 0x30, 0x40] = [0x2010, 0x4030]"
proof (intro conjI allI impI)
  show "length (toInt16Array bs) = length bs div 2" by (rule length_toInt16Array)
next
  fix i assume i: "i < length bs div 2"
  have u: "uint (toInt16Array bs ! i) = uint (bs ! (2 * i)) + 256 * uint (bs ! (2 * i + 1))"
    using i by (simp add: nth_toInt16Array sample_uint mult.commute)
  then show "uint (toInt16Array bs ! i) = uint (bs ! (2 * i)) + 256 * uint (bs ! (2 * i + 1))" .
  have "uint (bs ! (2 * i)) < 256" "0 \<le> uint (bs ! (2 * i))"
    using uint_lt2p [of "bs ! (2 * i)"] by simp_all
  then have "(uint (toInt16Array bs ! i) < 32768) = (uint (bs ! (2 * i + 1)) < 128)"
    unfolding u by linarith
  then show "sint (toInt16Array bs ! i) =
        (if uint (bs ! (2 * i + 1)) < 128
         then uint (bs ! (2 * i)) + 256 * uint (bs ! (2 * i + 1))
         else uint (bs ! (2 * i)) + 256 * uint (bs ! (2 * i + 1)) - 65536)"
    using u by (simp add: sint16_uint)
next
  assume "even (length bs)"
  then show "toInt16Array (bs @ [b]) = toInt16Array bs" by (rule toInt16Array_odd)
next
  show "toInt16Array [0x10, 0x20, 0x30, 0x40] = [0x2010, 0x4030]" by code_simp
qed

theorem toInt16Array_little_endian_witness:
  "length (toInt16Array [0x10, 0x20, 0x30, 0xC0]) = 2 \<and>
   uint (toInt16Array [0x10, 0x20, 0x30, 0xC0] ! 1) = 0xC030 \<and>
   sint (toInt16Array [0x10, 0x20, 0x30, 0xC0] ! 1) = 0xC030 - 65536 \<and>
   toInt16Array ([0x10, 0x20, 0x30, 0xC0] @ [0x55]) = toInt16Array [0x10, 0x20, 0x30, 0xC0]"
proof -
  have "(1::nat) < length [0x10, 0x20, 0x30, 0xC0 :: byte] div 2" by simp
  moreover have "even (length [0x10, 0x20, 0x30, 0xC0 :: byte])" by simp
  ultimately show ?thesis
    using toInt16Array_little_endian [of "[0x10, 0x20, 0x30, 0xC0]" "0x55"]
    by (auto dest!: spec [of _ 1])
qed

text \<open>
  Claim C3, as amended. In the Web Serial variant a completed recording of fewer than
  512 bytes (up to the marker, or up to the end of the stream or a read error with the
  port still there) is dropped: nothing is posted to the worker, nothing is written to
  the port, and the loop is back at its head, idle: the buffer is empty, no recording
  has started, the port and \<open>modelReady\<close> are untouched, and the loop goes on waiting for
  a read exactly when the port is still there and readable; with a readable port it
  does go on. The WebUSB variant has no minimum length: when the marker transfer arrives
  and the model is ready, the chunks received are posted, however few bytes they hold.
\<close>

theorem short_recording_discarded_serial:
  assumes "running st"
  shows "(v \<noteq> [] \<and> findEOF (audioBytes st @ v) = int k \<and> k < 512 \<longrightarrow>
            posted (receive_serial st (Chunk v)) = posted st \<and>
            written (receive_serial st (Chunk v)) = written st \<and>
            audioBytes (receive_serial st (Chunk v)) = [] \<and>
            \<not> recordingStarted (receive_serial st (Chunk v)) \<and>
            port (receive_serial st (Chunk v)) = port st \<and>
            modelReady (receive_serial st (Chunk v)) = modelReady st \<and>
            running (receive_serial st (Chunk v)) = portReadable st \<and>
            (portReadable st \<longrightarrow> running (receive_serial st (Chunk v)))) \<and>
         (length (audioBytes st) < 512 \<and> (r = Done \<or> r = ReadError \<and> port st \<noteq> None) \<longrightarrow>
            receive_serial st r = loopHead_serial st \<and>
            posted (receive_serial st r) = posted st \<and>
            written (receive_serial st r) = written st \<and>
            audioBytes (receive_serial st r) = [] \<and>
            \<not> recordingStarted (receive_serial st r) \<and>
            port (receive_serial st r) = port st \<and>
            modelReady (receive_serial st r) = modelReady st \<and>
            running (receive_serial st r) = portReadable st \<and>
            (portReadable st \<longrightarrow> running (receive_serial st r))) \<and>
         (running u \<and> draining u \<and> audioChunks u \<noteq> [] \<and> modelReady u \<and> isEOF d \<longrightarrow>
            posted (receive_usb u (Data d)) = posted u @ [concat (audioChunks u)])"
proof (intro conjI impI)
  assume a: "v \<noteq> [] \<and> findEOF (audioBytes st @ v) = int k \<and> k < 512"
  note eof = receive_serial_eof [OF assms, of v k]
  show "posted (receive_serial st (Chunk v)) = posted st" using a eof(1) by simp
  show "written (receive_serial st (Chunk v)) = written st" using a eof(5) by simp
  show "audioBytes (receive_serial st (Chunk v)) = []" using a eof(2) by simp
  show "\<not> recordingStarted (receive_serial st (Chunk v))" using a eof(3) by simp
  show "port (receive_serial st (Chunk v)) = port st" using a eof(6) by simp
  show "modelReady (receive_serial st (Chunk v)) = modelReady st" using a eof(4) by simp
  show run: "running (receive_serial st (Chunk v)) = portReadable st" using a eof(7) by simp
  assume "portReadable st"
  with run show "running (receive_serial st (Chunk v))" by simp
next
  assume a: "length (audioBytes st) < 512 \<and> (r = Done \<or> r = ReadError \<and> port st \<noteq> None)"
  then show eq: "receive_serial st r = loopHead_serial st"
    using assms by (auto simp: receive_serial_def finishRecording_serial_short)
  then show "posted (receive_serial st r) = posted st"
    "written (receive_serial st r) = written st"
    "audioBytes (receive_serial st r) = []"
    "\<not> recordingStarted (receive_serial st r)"
    "port (receive_serial st r) = port st"
    "modelReady (receive_serial st r) = modelReady st"
    and run: "running (receive_serial st r) = portReadable st"
    by (simp_all add: loopHead_serial_def)
  assume "portReadable st"
  with run show "running (receive_serial st r)" by simp
next
  assume "running u \<and> draining u \<and> audioChunks u \<noteq> [] \<and> modelReady u \<and> isEOF d"
  then show "posted (receive_usb u (Data d)) = posted u @ [concat (audioChunks u)]"
    by (simp add: receive_usb_def finishRecording_usb_def Let_def loopHead_usb_def)
qed

theorem short_recording_discarded_serial_witness:
  "running (connect_serial (onmessage_serial init_serial Ready)) \<and>
   portReadable (connect_serial (onmessage_serial init_serial Ready)) \<and>
   findEOF [0x10, 0x20, 0x30, 0x40, 0xFF, 0xFE, 0xFD, 0xFC] = 4 \<and>
   posted (receive_serial (connect_serial (onmessage_serial init_serial Ready))
      (Chunk [0x10, 0x20, 0x30, 0x40, 0xFF, 0xFE, 0xFD, 0xFC])) = [] \<and>
   written (receive_serial (connect_serial (onmessage_serial init_serial Ready))
      (Chunk [0x10, 0x20, 0x30, 0x40, 0xFF, 0xFE, 0xFD, 0xFC])) = [] \<and>
   audioBytes (receive_serial (connect_serial (onmessage_serial init_serial Ready))
      (Chunk [0x10, 0x20, 0x30, 0x40, 0xFF, 0xFE, 0xFD, 0xFC])) = [] \<and>
   running (receive_serial (connect_serial (onmessage_serial init_serial Ready))
      (Chunk [0x10, 0x20, 0x30, 0x40, 0xFF, 0xFE, 0xFD, 0xFC])) \<and>
   posted (receive_serial (connect_serial (onmessage_serial init_serial Ready)) Done) = [] \<and>
   running (receive_serial (connect_serial (onmessage_serial init_serial Ready)) Done) \<and>
   audioChunks (receive_usb (connect_usb 2 (onmessage_usb init_usb Ready)) (Data [0x07, 0x00]))
     = [[7]] \<and>
   posted (receive_usb
      (receive_usb (connect_usb 2 (onmessage_usb init_usb Ready)) (Data [0x07, 0x00]))
      (Data EOF_MARKER)) = [[7]]"
proof -
  let ?st = "connect_serial (onmessage_serial init_serial Ready)"
  let ?v = "[0x10, 0x20, 0x30, 0x40, 0xFF, 0xFE, 0xFD, 0xFC] :: byte list"
  let ?u = "receive_usb (connect_usb 2 (onmessage_usb init_usb Ready)) (Data [0x07, 0x00])"
  have f: "findEOF ?v = 4" by code_simp
  have u: "running ?u \<and> draining ?u \<and> audioChunks ?u \<noteq> [] \<and> modelReady ?u \<and>
           isEOF EOF_MARKER"
    by code_simp
  have c: "audioChunks ?u = [[7]]" by code_simp
  have p0: "posted ?u = []" by code_simp
  from short_recording_discarded_serial [OF ready_connected(1), of ?v 4 Done ?u EOF_MARKER]
  show ?thesis using f u c p0 by (simp add: ready_connected loopHead_serial_def)
qed

text \<open>
  The claim as stated fails in the WebUSB variant: a recording of four bytes, then the
  marker, with the model ready, is posted to the worker as two samples.
\<close>

theorem usb_short_recording_dispatched:
  "posted (usb_run (connect_usb 2 (onmessage_usb init_usb Ready))
      [Transfer (Data [0x10, 0x20, 0x30, 0x40]), Transfer (Data [0xFF, 0xFE, 0xFD, 0xFC])])
     = [[0x2010, 0x4030]]"
  by code_simp

text \<open>
  Claim C10. In the WebUSB variant a transfer that begins with the marker, received
  while the loop waits for the first chunk of a recording, is ignored: the state is the
  one at the head of the loop, no chunk is kept, nothing is posted or written, the
  status is unchanged, and the loop waits for the next transfer.
\<close>

theorem spurious_eof_ignored:
  assumes "running st" "device st" "\<not> draining st" "4 \<le> length d" "take 4 d = EOF_MARKER"
  shows "receive_usb st (Data d) = st\<lparr>recording := False, audioChunks := []\<rparr> \<and>
         posted (receive_usb st (Data d)) = posted st \<and>
         written (receive_usb st (Data d)) = written st \<and>
         status (receive_usb st (Data d)) = status st \<and>
         audioChunks (receive_usb st (Data d)) = [] \<and>
         \<not> recording (receive_usb st (Data d)) \<and>
         \<not> draining (receive_usb st (Data d)) \<and>
         running (receive_usb st (Data d))"
proof -
  have "isEOF d" using assms(4,5) by (simp add: isEOF_iff sentinelAt_def)
  then have "receive_usb st (Data d) = loopHead_usb st"
    using assms(1,3) by (simp add: receive_usb_def)
  then show ?thesis using assms(1,2,3) by (simp add: loopHead_usb_def)
qed

theorem spurious_eof_ignored_witness:
  "running (connect_usb 2 (onmessage_usb init_usb Ready)) \<and>
   device (connect_usb 2 (onmessage_usb init_usb Ready)) \<and>
   \<not> draining (connect_usb 2 (onmessage_usb init_usb Ready)) \<and>
   take 4 (EOF_MARKER @ [0x01, 0x02]) = EOF_MARKER \<and>
   receive_usb (connect_usb 2 (onmessage_usb init_usb Ready)) (Data (EOF_MARKER @ [0x01, 0x02]))
     = connect_usb 2 (onmessage_usb init_usb Ready) \<and>
   posted (receive_usb (connect_usb 2 (onmessage_usb init_usb Ready))
      (Data (EOF_MARKER @ [0x01, 0x02]))) = []"
proof -
  let ?st = "connect_usb 2 (onmessage_usb init_usb Ready)"
  note a = ready_connected_usb(1,2,4)
  have b: "4 \<le> length (EOF_MARKER @ [0x01, 0x02])" "take 4 (EOF_MARKER @ [0x01, 0x02]) = EOF_MARKER"
    by (simp_all add: EOF_MARKER_def)
  have c: "?st\<lparr>recording := False, audioChunks := []\<rparr> = ?st"
    by (simp add: connect_usb_def onmessage_usb_def init_usb_def loopHead_usb_def)
  from spurious_eof_ignored [OF a b] show ?thesis using a b c by (simp add: ready_connected_usb)
qed

section \<open>The claims about replies\<close>

text \<open>
  Claim C8. With a writable port, \<open>sendText\<close> makes exactly one write, of the UTF-8
  bytes of the text followed by one byte \<open>0x00\<close>; a message of the worker causes either
  no write or one write of that form; for the transcript \<^verbatim>\<open>"hello"\<close> the one write is
  the UTF-8 bytes of \<^verbatim>\<open>"hello "\<close> followed by \<open>0x00\<close>.
\<close>

theorem reply_is_text_then_nul:
  assumes "port st = Some p" "writable p"
  shows "written (sendText_serial text st) = written st @ [TextEncoder_encode text @ [0x00]] \<and>
         (written (onmessage_serial st m) = written st \<or>
          (\<exists>t. written (onmessage_serial st m) = written st @ [TextEncoder_encode t @ [0x00]])) \<and>
         written (onmessage_serial st (Transcript hello))
           = written st @ [TextEncoder_encode (hello @ [0x20]) @ [0x00]] \<and>
         TextEncoder_encode (hello @ [0x20]) @ [0x00]
           = [0x68, 0x65, 0x6C, 0x6C, 0x6F, 0x20, 0x00]"
proof (intro conjI)
  show "written (sendText_serial text st) = written st @ [TextEncoder_encode text @ [0x00]]"
    using assms by (rule written_sendText_serial)
next
  show "written (onmessage_serial st m) = written st \<or>
        (\<exists>t. written (onmessage_serial st m) = written st @ [TextEncoder_encode t @ [0x00]])"
  proof (cases m)
    case (Transcript tx)
    have "written (onmessage_serial st m) = written st @ [replyBytes tx]"
      using written_onmessage_serial [OF assms, of m] Transcript by simp
    moreover have "\<exists>t. replyBytes tx = TextEncoder_encode t @ [0x00]"
    proof (cases "trim tx = []")
      case True
      then have "replyBytes tx = TextEncoder_encode [] @ [0x00]" by (simp add: replyBytes_def)
      then show ?thesis by blast
    next
      case False
      then show ?thesis by (auto simp: replyBytes_def)
    qed
    ultimately show ?thesis by auto
  next
    case Ready
    then show ?thesis using written_onmessage_serial [OF assms, of m] by simp
  next
    case Progress
    then show ?thesis using written_onmessage_serial [OF assms, of m] by simp
  next
    case ErrorMsg
    then show ?thesis using written_onmessage_serial [OF assms, of m] by simp
  qed
next
  have "trim hello = hello" by code_simp
  moreover have "hello \<noteq> []" by (simp add: hello_def)
  ultimately show "written (onmessage_serial st (Transcript hello))
           = written st @ [TextEncoder_encode (hello @ [0x20]) @ [0x00]]"
    using written_onmessage_serial [OF assms, of "Transcript hello"]
    by (simp add: replyBytes_def)
next
  show "TextEncoder_encode (hello @ [0x20]) @ [0x00] = [0x68, 0x65, 0x6C, 0x6C, 0x6F, 0x20, 0x00]"
    by code_simp
qed

theorem reply_is_text_then_nul_witness:
  "port (connect_serial init_serial) = Some \<lparr>readable = True, writable = True\<rparr> \<and>
   written (sendText_serial hello (connect_serial init_serial))
     = [[0x68, 0x65, 0x6C, 0x6C, 0x6F, 0x00]] \<and>
   written (onmessage_serial (connect_serial init_serial) (Transcript hello))
     = [[0x68, 0x65, 0x6C, 0x6C, 0x6F, 0x20, 0x00]]"
proof -
  have p: "port (connect_serial init_serial) = Some \<lparr>readable = True, writable = True\<rparr>"
    by (simp add: connect_serial_def loopHead_serial_def init_serial_def)
  have w: "writable \<lparr>readable = True, writable = True\<rparr>" by simp
  have e: "written (connect_serial init_serial) = []"
    by (simp add: connect_serial_def loopHead_serial_def init_serial_def)
  have h: "TextEncoder_encode hello = [0x68, 0x65, 0x6C, 0x6C, 0x6F]" by code_simp
  from reply_is_text_then_nul [OF p w, of hello "Transcript hello"]
  show ?thesis using p e h by simp
qed

text \<open>
  Claim C2. An empty or white-space-only recognition result reaches the host as the
  empty text, since \<open>transcribe\<close> trims it. The Web Serial variant then writes the single
  byte \<open>0x00\<close>. The WebUSB variant writes nothing: its handler calls \<open>sendText\<close> only for
  a non-empty text. The statement evaluates both on that input.
\<close>

theorem usb_empty_transcript_not_answered:
  "transcribe_naive (Some (\<lambda>float32. Some [0x20, 0x20])) [0, 0] = Some (Transcript []) \<and>
   transcribe_peak (Some (\<lambda>float32. Some [0x20, 0x20])) [0, 0] = Some (Transcript []) \<and>
   written (usb_run (connect_usb 2 (onmessage_usb init_usb Ready))
      [UsbFromWorker (Transcript [])]) = [] \<and>
   written (serial_run (connect_serial (onmessage_serial init_serial Ready))
      [FromWorker (Transcript [])]) = [[0x00]]"
proof (intro conjI)
  have t: "trim [0x20, 0x20] = []" by code_simp
  show "transcribe_naive (Some (\<lambda>float32. Some [0x20, 0x20])) [0, 0] = Some (Transcript [])"
    by (simp add: transcribe_naive_def toFloat32_naive_eq t)
  show "transcribe_peak (Some (\<lambda>float32. Some [0x20, 0x20])) [0, 0] = Some (Transcript [])"
    by (simp add: transcribe_peak_def toFloat32_peak_eq t)
  show "written (usb_run (connect_usb 2 (onmessage_usb init_usb Ready))
      [UsbFromWorker (Transcript [])]) = []"
    by code_simp
  show "written (serial_run (connect_serial (onmessage_serial init_serial Ready))
      [FromWorker (Transcript [])]) = [[0x00]]"
    by code_simp
qed




section \<open>The claims about normalisation\<close>

text \<open>
  Claim C5, as amended. The peak-normalising worker scans the samples for their largest
  magnitude; when that peak is above 50 every sample is multiplied by \<open>0.9 / peak\<close>,
  otherwise by \<open>1 / 32768\<close>; a recording of 2000 bytes whose samples peak at 16000 is
  scaled by \<open>0.9 / 16000\<close>. The naive worker does not look at the peak: it divides every
  sample by 32768.
\<close>

theorem peak_normalisation_scale:
  "peakScan 0 audioData = Max (insert 0 ((\<lambda>x. \<bar>sint x\<bar>) ` set audioData)) \<and>
   (50 < peakScan 0 audioData \<longrightarrow>
      selectScale (peakScan 0 audioData) = Some (0.9 / real_of_int (peakScan 0 audioData)) \<and>
      toFloat32_peak audioData =
        Some (map (\<lambda>x. real_of_int (sint x) * (0.9 / real_of_int (peakScan 0 audioData)))
                audioData)) \<and>
   (\<not> 50 < peakScan 0 audioData \<longrightarrow>
      selectScale (peakScan 0 audioData) = Some (1 / 32768) \<and>
      toFloat32_peak audioData = Some (map (\<lambda>x. real_of_int (sint x) * (1 / 32768)) audioData)) \<and>
   (length bytes = 2000 \<and> peakScan 0 (toInt16Array bytes) = 16000 \<longrightarrow>
      selectScale (peakScan 0 (toInt16Array bytes)) = Some (0.9 / 16000)) \<and>
   toFloat32_naive audioData = Some (map (\<lambda>x. real_of_int (sint x) / 32768) audioData)"
proof (intro conjI impI)
  show "peakScan 0 audioData = Max (insert 0 ((\<lambda>x. \<bar>sint x\<bar>) ` set audioData))"
    by (rule peakScan_Max)
next
  assume "50 < peakScan 0 audioData"
  then show "selectScale (peakScan 0 audioData) = Some (0.9 / real_of_int (peakScan 0 audioData))"
    and "toFloat32_peak audioData =
        Some (map (\<lambda>x. real_of_int (sint x) * (0.9 / real_of_int (peakScan 0 audioData)))
                audioData)"
    by (simp_all only: selectScale_Some toFloat32_peak_eq if_True)
next
  assume "\<not> 50 < peakScan 0 audioData"
  then show "selectScale (peakScan 0 audioData) = Some (1 / 32768)"
    and "toFloat32_peak audioData = Some (map (\<lambda>x. real_of_int (sint x) * (1 / 32768)) audioData)"
    by (simp_all only: selectScale_Some toFloat32_peak_eq if_False)
next
  assume "length bytes = 2000 \<and> peakScan 0 (toInt16Array bytes) = 16000"
  then show "selectScale (peakScan 0 (toInt16Array bytes)) = Some (0.9 / 16000)"
    by (simp add: selectScale_Some)
next
  show "toFloat32_naive audioData = Some (map (\<lambda>x. real_of_int (sint x) / 32768) audioData)"
    by (rule toFloat32_naive_eq)
qed

theorem peak_normalisation_scale_witness:
  "peakScan 0 [100, - 16000, 3] = 16000 \<and>
   toFloat32_peak [100, - 16000, 3] = Some [9 / 1600, - 9 / 10, 27 / 160000] \<and>
   peakScan 0 [50, - 7] = 50 \<and>
   toFloat32_peak [50, - 7] = Some [50 / 32768, - 7 / 32768] \<and>
   length (replicate 1998 0 @ [0x80, 0x3E :: byte]) = 2000 \<and>
   peakScan 0 (toInt16Array (replicate 1998 0 @ [0x80, 0x3E])) = 16000 \<and>
   selectScale (peakScan 0 (toInt16Array (replicate 1998 0 @ [0x80, 0x3E]))) = Some (9 / 160000)"
proof -
  have s: "sint (100 :: int16) = 100" "sint (- 16000 :: int16) = - 16000" "sint (3 :: int16) = 3"
    "sint (50 :: int16) = 50" "sint (- 7 :: int16) = - 7"
    by simp_all
  have p1: "peakScan 0 [100, - 16000, 3] = 16000" by (simp add: Let_def s)
  have p2: "peakScan 0 [50, - 7] = 50" by (simp add: Let_def s)
  have p3: "peakScan 0 (toInt16Array (replicate 1998 0 @ [0x80, 0x3E])) = 16000"
    by (simp only: ex_recording_2000)
  from peak_normalisation_scale [of "[100, - 16000, 3]" "replicate 1998 0 @ [0x80, 0x3E]"]
    peak_normalisation_scale [of "[50, - 7]" "replicate 1998 0 @ [0x80, 0x3E]"]
  show ?thesis using p1 p2 p3 s by simp
qed

text \<open>
  The claim as stated fails in the naive worker: a sample of magnitude 16000, the peak
  of its buffer, becomes \<open>16000 / 32768\<close>, not \<open>0.9\<close> as in the peak-normalising worker.
\<close>

theorem naive_variant_ignores_peak:
  "peakScan 0 [16000] = 16000 \<and>
   toFloat32_naive [16000] = Some [125 / 256] \<and>
   toFloat32_peak [16000] = Some [9 / 10]"
proof -
  have s: "sint (16000 :: int16) = 16000" by simp
  have p: "peakScan 0 [16000] = 16000" by (simp add: Let_def s)
  show ?thesis using p s by (simp add: toFloat32_naive_eq toFloat32_peak_eq)
qed

text \<open>
  Claim C6. In both workers every sample is converted, no converted sample has a
  magnitude above 1, and no division by zero happens: the scale is always defined, and
  for a buffer whose peak is 0 it is \<open>1 / 32768\<close>.
\<close>

theorem normalisation_bounded:
  "(\<exists>ys. toFloat32_peak audioData = Some ys \<and> length ys = length audioData \<and>
         (\<forall>y \<in> set ys. \<bar>y\<bar> \<le> 1)) \<and>
   (\<exists>ys. toFloat32_naive audioData = Some ys \<and> length ys = length audioData \<and>
         (\<forall>y \<in> set ys. \<bar>y\<bar> \<le> 1)) \<and>
   selectScale peak \<noteq> None \<and>
   (peakScan 0 audioData = 0 \<longrightarrow> selectScale (peakScan 0 audioData) = Some (1 / 32768))"
proof (intro conjI impI)
  show "\<exists>ys. toFloat32_peak audioData = Some ys \<and> length ys = length audioData \<and>
         (\<forall>y \<in> set ys. \<bar>y\<bar> \<le> 1)"
  proof -
    let ?ys = "map (\<lambda>x. real_of_int (sint x) *
      (if peakScan 0 audioData > 50 then 0.9 / real_of_int (peakScan 0 audioData)
       else 1 / 32768)) audioData"
    have "toFloat32_peak audioData = Some ?ys" by (rule toFloat32_peak_eq)
    moreover have "length ?ys = length audioData" by (simp only: length_map)
    moreover have "\<forall>y \<in> set ?ys. \<bar>y\<bar> \<le> 1"
      using peak_scaled_bound [of _ audioData] by auto
    ultimately show ?thesis by blast
  qed
  show "\<exists>ys. toFloat32_naive audioData = Some ys \<and> length ys = length audioData \<and>
         (\<forall>y \<in> set ys. \<bar>y\<bar> \<le> 1)"
  proof -
    let ?ys = "map (\<lambda>x. real_of_int (sint x) / 32768) audioData"
    have "toFloat32_naive audioData = Some ?ys" by (rule toFloat32_naive_eq)
    moreover have "length ?ys = length audioData" by (simp only: length_map)
    moreover have "\<forall>y \<in> set ?ys. \<bar>y\<bar> \<le> 1"
      using naive_bound by auto
    ultimately show ?thesis by blast
  qed
  show "selectScale peak \<noteq> None" by (simp add: selectScale_Some)
next
  assume "peakScan 0 audioData = 0"
  then show "selectScale (peakScan 0 audioData) = Some (1 / 32768)"
    by (simp add: selectScale_Some)
qed

theorem normalisation_bounded_witness:
  "toFloat32_peak [0, 0] = Some [0, 0] \<and>
   toFloat32_naive [0, 0] = Some [0, 0] \<and>
   peakScan 0 [0, 0] = 0 \<and>
   selectScale (peakScan 0 [0, 0]) = Some (1 / 32768) \<and>
   (\<exists>ys. toFloat32_peak [0x7FFF, 0x8000] = Some ys \<and> \<bar>ys ! 1\<bar> \<le> 1) \<and>
   (\<exists>ys. toFloat32_naive [0x7FFF, 0x8000] = Some ys \<and> \<bar>ys ! 1\<bar> \<le> 1)"
proof -
  have p: "peakScan 0 [0, 0] = 0" by (simp add: Let_def)
  have z: "toFloat32_peak [0, 0] = Some [0, 0]" "toFloat32_naive [0, 0] = Some [0, 0]"
    by (simp_all add: toFloat32_peak_eq toFloat32_naive_eq)
  from normalisation_bounded [of "[0, 0]" 0] p
  have a: "selectScale (peakScan 0 [0, 0]) = Some (1 / 32768)" by blast
  from normalisation_bounded [of "[0x7FFF, 0x8000]" 0]
  have b: "(\<exists>ys. toFloat32_peak [0x7FFF, 0x8000] = Some ys \<and> \<bar>ys ! 1\<bar> \<le> 1)"
    and c: "(\<exists>ys. toFloat32_naive [0x7FFF, 0x8000] = Some ys \<and> \<bar>ys ! 1\<bar> \<le> 1)"
    by (force simp: all_set_conv_all_nth)+
  show ?thesis using p z a b c by blast
qed

end
